theory Spec2Isabelle
  imports Complex_Main "HOL-Library.Multiset"
begin

section \<open>Numbers\<close>

text \<open>
  The editor is TypeScript; every length, offset and zoom factor is a JavaScript
  \<^verbatim>\<open>number\<close>.  The ruler and the page set-up dialog are modelled over the
  reals: a finite number is its exact value and the arithmetic is exact.  The values
  that are not reals (\<^verbatim>\<open>undefined\<close> read from an array out of range,
  \<^verbatim>\<open>NaN\<close> from \<^verbatim>\<open>parseFloat\<close>) are written out where the
  code can meet them.
\<close>

definition Math_round :: "real \<Rightarrow> real" where
  \<comment> \<open>\<^verbatim>\<open>Math.round\<close>: the nearest integer, a tie going up.\<close>
  "Math_round x = of_int \<lfloor>x + 1 / 2\<rfloor>"

definition Math_max :: "real \<Rightarrow> real \<Rightarrow> real" where
  "Math_max a b = (if a < b then b else a)"

definition Math_min :: "real \<Rightarrow> real \<Rightarrow> real" where
  "Math_min a b = (if b < a then b else a)"

definition Math_abs :: "real \<Rightarrow> real" where
  "Math_abs x = (if x < 0 then - x else x)"

section \<open>The ruler (EditorRuler)\<close>

record EditorRulerProps =
  pageWidth :: real
  leftMargin :: real
  rightMargin :: real
  tabStops :: "real list"
  zoom :: real

datatype drag_handle = DragLeft | DragRight | DragTab

text \<open>The component's own state: \<^verbatim>\<open>dragging\<close> is \<^verbatim>\<open>'left' | 'right' | 'tab' | null\<close>.\<close>

record ruler_state =
  dragging :: "drag_handle option"
  dragTabIndex :: "nat option"

text \<open>
  The ruler changes nothing itself: it calls back into its parent.  A handler of the
  model returns the calls it makes, in order.  \<^verbatim>\<open>onTabStopRemove\<close> is called
  with \<^verbatim>\<open>tabStops[i]\<close>, which is \<^verbatim>\<open>undefined\<close> (here \<open>None\<close>) when
  \<^verbatim>\<open>i\<close> is out of range.
\<close>

datatype ruler_callback =
    OnTabStopAdd real
  | OnTabStopRemove "real option"
  | OnMarginChange real real

definition inchesToPx :: "real \<Rightarrow> real \<Rightarrow> real" where
  "inchesToPx zm inches = inches * 96 * (zm / 100)"

definition pxToInches :: "real \<Rightarrow> real \<Rightarrow> real" where
  "pxToInches zm px = px / 96 / (zm / 100)"

definition index_opt :: "'a list \<Rightarrow> nat \<Rightarrow> 'a option" where
  \<comment> \<open>\<^verbatim>\<open>xs[i]\<close> of JavaScript.\<close>
  "index_opt xs i = (if i < length xs then Some (xs ! i) else None)"

text \<open>
  A mouse event reaches a handler as \<^verbatim>\<open>e.clientX\<close>; \<open>rect\<close> is
  \<^verbatim>\<open>rulerRef.current.getBoundingClientRect().left\<close>, or \<open>None\<close> when
  \<^verbatim>\<open>rulerRef.current\<close> is null.
\<close>

definition handleRulerClick ::
  "EditorRulerProps \<Rightarrow> ruler_state \<Rightarrow> real option \<Rightarrow> real \<Rightarrow> ruler_callback list" where
  "handleRulerClick p st rect clientX =
     (case rect of
        None \<Rightarrow> []
      | Some rect_left \<Rightarrow>
          if dragging st \<noteq> None then []
          else
            let clickX = clientX - rect_left;
                posInches = pxToInches (zoom p) clickX - leftMargin p
            in if posInches > 0 \<and> posInches < pageWidth p - leftMargin p - rightMargin p
               then [OnTabStopAdd (Math_round (posInches * 4) / 4)]
               else [])"

definition handleTabDoubleClick :: "EditorRulerProps \<Rightarrow> nat \<Rightarrow> ruler_callback list" where
  "handleTabDoubleClick p index = [OnTabStopRemove (index_opt (tabStops p) index)]"


definition handleTabDragStart :: "nat \<Rightarrow> ruler_state \<Rightarrow> ruler_state" where
  "handleTabDragStart index st = st\<lparr>dragging := Some DragTab, dragTabIndex := Some index\<rparr>"

definition handleMouseMove ::
  "EditorRulerProps \<Rightarrow> ruler_state \<Rightarrow> real option \<Rightarrow> real \<Rightarrow> ruler_callback list" where
  "handleMouseMove p st rect clientX =
     (case (dragging st, rect) of
        (None, _) \<Rightarrow> []
      | (_, None) \<Rightarrow> []
      | (Some d, Some rect_left) \<Rightarrow>
          let mouseX = clientX - rect_left;
              posInches = pxToInches (zoom p) mouseX
          in case d of
               DragLeft \<Rightarrow>
                 let newLeft = Math_max 0.25 (Math_min (pageWidth p - rightMargin p - 1) posInches)
                 in [OnMarginChange (Math_round (newLeft * 4) / 4) (rightMargin p)]
             | DragRight \<Rightarrow>
                 let newRight = Math_max 0.25
                       (Math_min (pageWidth p - leftMargin p - 1) (pageWidth p - posInches))
                 in [OnMarginChange (leftMargin p) (Math_round (newRight * 4) / 4)]
             | DragTab \<Rightarrow>
                 (case dragTabIndex st of
                    None \<Rightarrow> []
                  | Some i \<Rightarrow>
                      let newPos = posInches - leftMargin p
                      in if newPos > 0 \<and> newPos < pageWidth p - leftMargin p - rightMargin p
                         then [OnTabStopRemove (index_opt (tabStops p) i),
                               OnTabStopAdd (Math_round (newPos * 4) / 4)]
                         else []))"


definition handleMouseUp :: "ruler_state \<Rightarrow> ruler_state" where
  "handleMouseUp st = st\<lparr>dragging := None, dragTabIndex := None\<rparr>"

section \<open>The parent of the ruler (TextEditor)\<close>

record PageSize =
  width :: real
  height :: real

record Margins =
  margin_top :: real
  margin_bottom :: real
  margin_left :: real
  margin_right :: real

record TextEditor_state =
  te_zoom :: real
  pageSize :: PageSize
  margins :: Margins
  te_tabStops :: "real list"

definition letter :: PageSize where
  "letter = \<lparr>width = 8.5, height = 11\<rparr>"

definition initial_state :: TextEditor_state where
  "initial_state =
     \<lparr>te_zoom = 100, pageSize = letter,
      margins = \<lparr>margin_top = 1, margin_bottom = 1, margin_left = 1, margin_right = 1\<rparr>,
      te_tabStops = [0.5, 1, 1.5, 2, 2.5, 3, 3.5, 4]\<rparr>"

definition handleZoomChange :: "real \<Rightarrow> TextEditor_state \<Rightarrow> TextEditor_state" where
  "handleZoomChange newZoom s = s\<lparr>te_zoom := Math_min 200 (Math_max 50 newZoom)\<rparr>"

definition handleTabStopAdd :: "real \<Rightarrow> real list \<Rightarrow> real list" where
  \<comment> \<open>\<^verbatim>\<open>[...prev, position].sort((a, b) => a - b)\<close>\<close>
  "handleTabStopAdd position prev = sort (prev @ [position])"

definition handleTabStopRemove :: "real option \<Rightarrow> real list \<Rightarrow> real list" where
  \<comment> \<open>\<^verbatim>\<open>prev.filter(t => Math.abs(t - position) > 0.05)\<close>; with
      \<^verbatim>\<open>position\<close> undefined the difference is NaN and no comparison with NaN
      is true, so nothing is kept.\<close>
  "handleTabStopRemove position prev =
     (case position of
        None \<Rightarrow> []
      | Some pos \<Rightarrow> filter (\<lambda>t. Math_abs (t - pos) > 0.05) prev)"

fun call_parent :: "TextEditor_state \<Rightarrow> ruler_callback \<Rightarrow> TextEditor_state" where
  "call_parent s (OnTabStopAdd position) =
     s\<lparr>te_tabStops := handleTabStopAdd position (te_tabStops s)\<rparr>"
| "call_parent s (OnTabStopRemove position) =
     s\<lparr>te_tabStops := handleTabStopRemove position (te_tabStops s)\<rparr>"
| "call_parent s (OnMarginChange l r) =
     s\<lparr>margins := (margins s)\<lparr>margin_left := l, margin_right := r\<rparr>\<rparr>"

definition ruler_props :: "TextEditor_state \<Rightarrow> EditorRulerProps" where
  \<comment> \<open>the props \<^verbatim>\<open>TextEditor\<close> renders the ruler with\<close>
  "ruler_props s =
     \<lparr>pageWidth = width (pageSize s),
      leftMargin = margin_left (margins s),
      rightMargin = margin_right (margins s),
      tabStops = te_tabStops s,
      zoom = te_zoom s\<rparr>"

text \<open>
  One event on the ruler: the handler runs against the props of the last render and the
  parent's state setters run in the order of the calls (each a functional update of the
  state before it).
\<close>

definition on_click :: "TextEditor_state \<Rightarrow> ruler_state \<Rightarrow> real option \<Rightarrow> real \<Rightarrow> TextEditor_state" where
  "on_click s st rect clientX = foldl call_parent s (handleRulerClick (ruler_props s) st rect clientX)"

definition on_mouse_move :: "TextEditor_state \<Rightarrow> ruler_state \<Rightarrow> real option \<Rightarrow> real \<Rightarrow> TextEditor_state" where
  "on_mouse_move s st rect clientX = foldl call_parent s (handleMouseMove (ruler_props s) st rect clientX)"

definition on_double_click :: "TextEditor_state \<Rightarrow> nat \<Rightarrow> TextEditor_state" where
  "on_double_click s index = foldl call_parent s (handleTabDoubleClick (ruler_props s) index)"

section \<open>The page set-up dialog (PageSetupDialog)\<close>

text \<open>
  A margin field stores \<^verbatim>\<open>parseFloat(e.target.value) || 0\<close>.  Here a number can be
  NaN or infinite, so the fields of the dialog's local margins are of the type
  \<open>js_number\<close>.  \<open>parseFloat\<close> follows ECMAScript: leading white space is skipped, the
  longest prefix that is a decimal literal (a sign, then \<^verbatim>\<open>Infinity\<close> or digits with
  an optional fraction and exponent) is read, and the result is NaN when there is no such
  prefix.  Strings are ASCII, and a literal has its exact value.
\<close>

datatype js_number = NaN | PosInfinity | NegInfinity | Num real

definition logical_or :: "js_number \<Rightarrow> js_number \<Rightarrow> js_number" where
  \<comment> \<open>\<^verbatim>\<open>a || b\<close> on numbers: NaN and zero are falsy\<close>
  "logical_or a b = (if a = NaN \<or> a = Num 0 then b else a)"

definition isWhiteSpace :: "char \<Rightarrow> bool" where
  "isWhiteSpace c \<longleftrightarrow> (of_char c :: nat) \<in> {9, 10, 11, 12, 13, 32}"

definition isDigit :: "char \<Rightarrow> bool" where
  "isDigit c \<longleftrightarrow> 48 \<le> (of_char c :: nat) \<and> (of_char c :: nat) \<le> 57"

definition digits_val :: "string \<Rightarrow> nat" where
  "digits_val ds = foldl (\<lambda>a c. 10 * a + (of_char c - 48)) 0 ds"

definition split_sign :: "string \<Rightarrow> bool \<times> string" where
  "split_sign s =
     (case s of
        [] \<Rightarrow> (False, [])
      | c # r \<Rightarrow> if c = CHR ''-'' then (True, r) else if c = CHR ''+'' then (False, r) else (False, s))"

definition parse_exponent :: "string \<Rightarrow> int" where
  "parse_exponent s =
     (case s of
        [] \<Rightarrow> 0
      | c # r \<Rightarrow>
          if c = CHR ''e'' \<or> c = CHR ''E''
          then (let (neg, r') = split_sign r; ds = takeWhile isDigit r'
                in if ds = [] then 0
                   else if neg then - int (digits_val ds) else int (digits_val ds))
          else 0)"

definition scale10 :: "real \<Rightarrow> int \<Rightarrow> real" where
  "scale10 x e = (if 0 \<le> e then x * 10 ^ nat e else x / 10 ^ nat (- e))"

definition parseFloat :: "string \<Rightarrow> js_number" where
  "parseFloat s =
     (let (neg, u) = split_sign (dropWhile isWhiteSpace s)
      in if take 8 u = ''Infinity'' then (if neg then NegInfinity else PosInfinity)
         else
           let ip = takeWhile isDigit u;
               r1 = dropWhile isDigit u;
               (fp, r2) = (case r1 of
                             [] \<Rightarrow> ([], [])
                           | c # r \<Rightarrow> if c = CHR ''.''
                                     then (takeWhile isDigit r, dropWhile isDigit r)
                                     else ([], r1))
           in if ip = [] \<and> fp = [] then NaN
              else
                let v = scale10 (real (digits_val ip) + real (digits_val fp) / 10 ^ length fp)
                          (parse_exponent r2)
                in Num (if neg then - v else v))"

record LocalMargins =
  lm_top :: js_number
  lm_bottom :: js_number
  lm_left :: js_number
  lm_right :: js_number

definition margin_value :: "string \<Rightarrow> js_number" where
  \<comment> \<open>\<^verbatim>\<open>parseFloat(e.target.value) || 0\<close>\<close>
  "margin_value v = logical_or (parseFloat v) (Num 0)"

text \<open>The four \<^verbatim>\<open>onChange\<close> handlers: \<^verbatim>\<open>setLocalMargins({ ...localMargins, top: ... })\<close> and so on.\<close>

definition onChange_top :: "string \<Rightarrow> LocalMargins \<Rightarrow> LocalMargins" where
  "onChange_top v lm = lm\<lparr>lm_top := margin_value v\<rparr>"

definition onChange_bottom :: "string \<Rightarrow> LocalMargins \<Rightarrow> LocalMargins" where
  "onChange_bottom v lm = lm\<lparr>lm_bottom := margin_value v\<rparr>"

definition onChange_left :: "string \<Rightarrow> LocalMargins \<Rightarrow> LocalMargins" where
  "onChange_left v lm = lm\<lparr>lm_left := margin_value v\<rparr>"

definition onChange_right :: "string \<Rightarrow> LocalMargins \<Rightarrow> LocalMargins" where
  "onChange_right v lm = lm\<lparr>lm_right := margin_value v\<rparr>"

section \<open>The document of the editing framework\<close>

text \<open>
  The find and replace dialog reads and edits the document of the editing framework
  through positions.  A position counts tokens from the start of the document: the start
  and the end of a node that is not text, and a leaf node, are one token each (\<open>Struct\<close>),
  and every character of text is one token (\<open>Txt\<close>, with the set of marks on it, here a
  number naming the set).  A text node is a maximal run of character tokens with the same
  marks: the framework joins adjacent text with equal marks and has no empty text node.
  Characters are ASCII.
\<close>

datatype token = Struct | Txt char nat

record pm_editor =
  doc :: "token list"
  selection :: "nat \<times> nat"

fun same_marks :: "nat \<Rightarrow> token \<Rightarrow> bool" where
  "same_marks m (Txt c m') = (m' = m)"
| "same_marks m Struct = False"

fun token_char :: "token \<Rightarrow> char" where
  "token_char (Txt c m) = c"
| "token_char Struct = CHR 0x00"

text \<open>
  \<^verbatim>\<open>doc.descendants\<close> calls back with every node and its position; \<open>text_nodes\<close> lists
  the text nodes among them, each with its position and its text, in document order.
\<close>

function text_nodes :: "token list \<Rightarrow> nat \<Rightarrow> (nat \<times> string) list" where
  "text_nodes [] pos = []"
| "text_nodes (Struct # ts) pos = text_nodes ts (Suc pos)"
| "text_nodes (Txt c m # ts) pos =
     (pos, c # map token_char (takeWhile (same_marks m) ts))
       # text_nodes (dropWhile (same_marks m) ts) (Suc pos + length (takeWhile (same_marks m) ts))"
  by pat_completeness auto

termination
  by (relation "measure (\<lambda>(ts, pos). length ts)") (auto simp: length_dropWhile_le less_Suc_eq_le)

definition textContent :: "token list \<Rightarrow> string" where
  "textContent d = map token_char (filter (\<lambda>t. t \<noteq> Struct) d)"

text \<open>
  A range of positions, \<^verbatim>\<open>{ from, to }\<close>: the dialog's \<^verbatim>\<open>SearchResult\<close>.
\<close>

record SearchResult =
  match_from :: nat
  match_to :: nat

text \<open>
  \<^verbatim>\<open>setTextSelection\<close> keeps the positions inside the document;
  \<^verbatim>\<open>insertContent\<close> with a string puts the string, as text with the marks found
  at the start of the selection, in the place of the selection.  The string is plain
  text without markup.
\<close>

definition setTextSelection :: "SearchResult \<Rightarrow> pm_editor \<Rightarrow> pm_editor" where
  "setTextSelection m e =
     e\<lparr>selection := (min (match_from m) (length (doc e)), min (match_to m) (length (doc e)))\<rparr>"



section \<open>Find and replace (FindReplaceDialog)\<close>

record FindReplace_state =
  editor :: "pm_editor option"
  searchTerm :: string
  replaceTerm :: string
  results :: "SearchResult list"
  currentIndex :: int
  caseSensitive :: bool

text \<open>
  The search term is made a regular expression with every metacharacter escaped, so the
  expression matches the term literally; the flag \<^verbatim>\<open>i\<close> compares characters after
  \<open>canonicalize\<close>, which maps a lower-case letter to its upper-case letter.
  \<open>regex_exec\<close> is \<^verbatim>\<open>searchRegex.exec(node.text)\<close> from a given
  \<^verbatim>\<open>lastIndex\<close>: the index of the first match at or after it, \<open>None\<close> for null.
\<close>

definition canonicalize :: "char \<Rightarrow> char" where
  "canonicalize c =
     (if 97 \<le> (of_char c :: nat) \<and> (of_char c :: nat) \<le> 122 then char_of (of_char c - 32 :: nat) else c)"

definition matchAt :: "bool \<Rightarrow> string \<Rightarrow> string \<Rightarrow> nat \<Rightarrow> bool" where
  "matchAt cs pat text i \<longleftrightarrow>
     i + length pat \<le> length text
     \<and> (if cs then take (length pat) (drop i text) = pat
         else map canonicalize (take (length pat) (drop i text)) = map canonicalize pat)"

definition regex_exec :: "bool \<Rightarrow> string \<Rightarrow> string \<Rightarrow> nat \<Rightarrow> nat option" where
  "regex_exec cs pat text lastIndex =
     (if lastIndex > length text then None
      else List.find (matchAt cs pat text) [lastIndex ..< Suc (length text)])"

lemma find_SomeD: "List.find P xs = Some x \<Longrightarrow> x \<in> set xs \<and> P x"
  by (induction xs) (auto split: if_splits)

lemma regex_exec_Some:
  assumes "regex_exec cs pat text lastIndex = Some i"
  shows "lastIndex \<le> i \<and> i + length pat \<le> length text \<and> matchAt cs pat text i"
proof -
  from assms have "List.find (matchAt cs pat text) [lastIndex ..< Suc (length text)] = Some i"
    by (simp add: regex_exec_def split: if_splits)
  then have "i \<in> set [lastIndex ..< Suc (length text)]" and m: "matchAt cs pat text i"
    by (auto dest: find_SomeD)
  then have "lastIndex \<le> i" by auto
  moreover from m have "i + length pat \<le> length text" by (simp add: matchAt_def)
  ultimately show ?thesis using m by simp
qed

text \<open>
  The loop \<^verbatim>\<open>while ((match = searchRegex.exec(node.text)) !== null)\<close>: after a match
  \<^verbatim>\<open>lastIndex\<close> is the end of the match, and after null it is 0 again, so the
  next text node is searched from its start.  \<^verbatim>\<open>findMatches\<close> returns before
  the loop when the search term is empty; the loop of the model ends at once there.
\<close>

function exec_loop :: "bool \<Rightarrow> string \<Rightarrow> string \<Rightarrow> nat \<Rightarrow> nat list" where
  "exec_loop cs pat text lastIndex =
     (if pat = [] then []
      else case regex_exec cs pat text lastIndex of
             None \<Rightarrow> []
           | Some i \<Rightarrow> i # exec_loop cs pat text (i + length pat))"
  by pat_completeness auto

termination
proof (relation "measure (\<lambda>(cs, pat, text, lastIndex). Suc (length text) - lastIndex)")
  show "wf (measure (\<lambda>(cs, pat, text, lastIndex). Suc (length text) - lastIndex))" by simp
next
  fix cs :: bool and pat str :: string and lastIndex i :: nat
  assume "pat \<noteq> []" and "regex_exec cs pat str lastIndex = Some i"
  then have "lastIndex \<le> i" "i + length pat \<le> length str" "0 < length pat"
    using regex_exec_Some by auto
  then have "Suc (length str) - (i + length pat) < Suc (length str) - lastIndex"
    by arith
  then show "((cs, pat, str, i + length pat), cs, pat, str, lastIndex)
        \<in> measure (\<lambda>(cs, pat, text, lastIndex). Suc (length text) - lastIndex)"
    by simp
qed

declare exec_loop.simps [simp del]

lemma exec_loop_empty_pattern: "exec_loop cs [] str lastIndex = []"
  by (simp add: exec_loop.simps)

lemma exec_loop_None:
  "regex_exec cs pat str lastIndex = None \<Longrightarrow> exec_loop cs pat str lastIndex = []"
  by (simp add: exec_loop.simps [of cs pat str lastIndex])

lemma exec_loop_Some:
  "pat \<noteq> [] \<Longrightarrow> regex_exec cs pat str lastIndex = Some i \<Longrightarrow>
   exec_loop cs pat str lastIndex = i # exec_loop cs pat str (i + length pat)"
  by (simp add: exec_loop.simps [of cs pat str lastIndex])

definition node_matches :: "bool \<Rightarrow> string \<Rightarrow> nat \<times> string \<Rightarrow> SearchResult list" where
  \<comment> \<open>what the callback of \<^verbatim>\<open>doc.descendants\<close> pushes for one text node\<close>
  "node_matches cs pat = (\<lambda>(pos, text).
       map (\<lambda>i. \<lparr>match_from = pos + i, match_to = pos + i + length pat\<rparr>) (exec_loop cs pat text 0))"

definition scan_matches :: "token list \<Rightarrow> string \<Rightarrow> bool \<Rightarrow> SearchResult list" where
  \<comment> \<open>the list \<^verbatim>\<open>matches\<close> that \<^verbatim>\<open>doc.descendants\<close> fills, in document order\<close>
  "scan_matches d pat cs = concat (map (node_matches cs pat) (text_nodes d 0))"

datatype js_error = TypeError

definition js_rem :: "int \<Rightarrow> int \<Rightarrow> int" where
  "js_rem a b = sgn a * (\<bar>a\<bar> mod \<bar>b\<bar>)"

definition index_int :: "'a list \<Rightarrow> int \<Rightarrow> 'a option" where
  "index_int xs i = (if 0 \<le> i \<and> i < int (length xs) then Some (xs ! nat i) else None)"

text \<open>
  \<^verbatim>\<open>highlightMatch\<close> returns at once without an editor; with one it reads
  \<^verbatim>\<open>match.from\<close>, a TypeError when the match is undefined.  Scrolling is not
  modelled.
\<close>

definition highlightMatch :: "SearchResult option \<Rightarrow> pm_editor option \<Rightarrow> js_error + pm_editor option" where
  "highlightMatch m ed =
     (case ed of
        None \<Rightarrow> Inr None
      | Some e \<Rightarrow> (case m of None \<Rightarrow> Inl TypeError | Some r \<Rightarrow> Inr (Some (setTextSelection r e))))"

definition findMatches :: "FindReplace_state \<Rightarrow> FindReplace_state" where
  "findMatches s =
     (case editor s of
        None \<Rightarrow> s\<lparr>results := []\<rparr>
      | Some e \<Rightarrow>
          if searchTerm s = [] then s\<lparr>results := []\<rparr>
          else
            let matches = scan_matches (doc e) (searchTerm s) (caseSensitive s)
            in case matches of
                 [] \<Rightarrow> s\<lparr>results := matches\<rparr>
               | m # _ \<Rightarrow> s\<lparr>results := matches, currentIndex := 0,
                             editor := Some (setTextSelection m e)\<rparr>)"

definition goToNext :: "FindReplace_state \<Rightarrow> js_error + FindReplace_state" where
  "goToNext s =
     (if results s = [] then Inr s
      else
        let nextIndex = js_rem (currentIndex s + 1) (int (length (results s)))
        in case highlightMatch (index_int (results s) nextIndex) (editor s) of
             Inl err \<Rightarrow> Inl err
           | Inr ed \<Rightarrow> Inr (s\<lparr>currentIndex := nextIndex, editor := ed\<rparr>))"

definition goToPrevious :: "FindReplace_state \<Rightarrow> js_error + FindReplace_state" where
  "goToPrevious s =
     (if results s = [] then Inr s
      else
        let prevIndex = js_rem (currentIndex s - 1 + int (length (results s))) (int (length (results s)))
        in case highlightMatch (index_int (results s) prevIndex) (editor s) of
             Inl err \<Rightarrow> Inl err
           | Inr ed \<Rightarrow> Inr (s\<lparr>currentIndex := prevIndex, editor := ed\<rparr>))"






section \<open>States used as examples\<close>

definition idle :: ruler_state where
  \<comment> \<open>the ruler's state when it is mounted: nothing is dragged\<close>
  "idle = \<lparr>dragging = None, dragTabIndex = None\<rparr>"

definition dragging_tab :: "nat \<Rightarrow> ruler_state" where
  "dragging_tab i = handleTabDragStart i idle"


definition wide_left :: TextEditor_state where
  \<comment> \<open>the left margin set to 1.1 inches (the page set-up dialog steps by 0.1)\<close>
  "wide_left = initial_state\<lparr>margins := (margins initial_state)\<lparr>margin_left := 1.1\<rparr>\<rparr>"


definition three_stops :: TextEditor_state where
  "three_stops = initial_state\<lparr>te_tabStops := [0.5, 1, 3]\<rparr>"

definition paragraph_of :: "string \<Rightarrow> token list" where
  \<comment> \<open>a document of one paragraph of unmarked text\<close>
  "paragraph_of s = Struct # map (\<lambda>c. Txt c 0) s @ [Struct]"

definition cat_state :: FindReplace_state where
  "cat_state =
     \<lparr>editor = Some \<lparr>doc = paragraph_of ''cat cat cat'', selection = (1, 1)\<rparr>,
      searchTerm = ''cat'', replaceTerm = ''dog'', results = [], currentIndex = 0,
      caseSensitive = False\<rparr>"

definition cat_matches :: "SearchResult list" where
  "cat_matches = [\<lparr>match_from = 1, match_to = 4\<rparr>, \<lparr>match_from = 5, match_to = 8\<rparr>,
                  \<lparr>match_from = 9, match_to = 12\<rparr>]"

definition at_last_match :: FindReplace_state where
  "at_last_match = (findMatches cat_state)\<lparr>currentIndex := 2\<rparr>"

definition split_doc :: "token list" where
  \<comment> \<open>one paragraph, \<^verbatim>\<open>ca\<close> unmarked and \<^verbatim>\<open>t cat\<close> marked (say bold)\<close>
  "split_doc = Struct # map (\<lambda>c. Txt c 0) ''ca'' @ map (\<lambda>c. Txt c 1) ''t cat'' @ [Struct]"

definition inch_margins :: LocalMargins where
  "inch_margins = \<lparr>lm_top = Num 1, lm_bottom = Num 1, lm_left = Num 1, lm_right = Num 1\<rparr>"

section \<open>Rounding and absolute value\<close>

lemma Math_abs_abs: "Math_abs x = \<bar>x\<bar>"
  by (simp add: Math_abs_def)



lemma filter_all_but_one:
  "i < length xs \<Longrightarrow> \<not> P (xs ! i) \<Longrightarrow> (\<And>j. j < length xs \<Longrightarrow> j \<noteq> i \<Longrightarrow> P (xs ! j))
   \<Longrightarrow> filter P xs = take i xs @ drop (Suc i) xs"
proof (induction xs arbitrary: i)
  case Nil
  then show ?case by simp
next
  case (Cons x xs)
  show ?case
  proof (cases i)
    case 0
    have "\<And>y. y \<in> set xs \<Longrightarrow> P y"
    proof -
      fix y assume "y \<in> set xs"
      then obtain j where "j < length xs" "xs ! j = y" by (auto simp: in_set_conv_nth)
      with Cons.prems(3) [of "Suc j"] 0 show "P y" by auto
    qed
    with Cons.prems(2) 0 show ?thesis by simp
  next
    case (Suc n)
    have "P x" using Cons.prems(3) [of 0] Suc by simp
    moreover have "filter P xs = take n xs @ drop (Suc n) xs"
    proof (rule Cons.IH)
      show "n < length xs" using Cons.prems(1) Suc by simp
      show "\<not> P (xs ! n)" using Cons.prems(2) Suc by simp
      fix j assume "j < length xs" "j \<noteq> n"
      then show "P (xs ! j)" using Cons.prems(3) [of "Suc j"] Suc by simp
    qed
    ultimately show ?thesis using Suc by simp
  qed
qed

section \<open>Pixels and inches\<close>


text \<open>
  C5.  For every length \<open>v\<close> in \<open>[0, pageWidth]\<close> and every zoom in \<open>[50, 200]\<close>,
  converting inches to pixels and back gives \<open>v\<close> again, over exact arithmetic, where
  \<open>inchesToPx v = v * 96 * (zoom / 100)\<close>.
\<close>

theorem px_inches_roundtrip:
  assumes "0 \<le> v" and "v \<le> pageWidth p" and "50 \<le> zoom p" and "zoom p \<le> 200"
  shows "pxToInches (zoom p) (inchesToPx (zoom p) v) = v
       \<and> inchesToPx (zoom p) v = v * 96 * (zoom p / 100)"
  using assms by (simp add: pxToInches_def inchesToPx_def)

theorem px_inches_roundtrip_witness:
  "(0::real) \<le> 1.38 \<and> 1.38 \<le> pageWidth (ruler_props initial_state)
   \<and> 50 \<le> zoom (ruler_props initial_state) \<and> zoom (ruler_props initial_state) \<le> 200
   \<and> pxToInches (zoom (ruler_props initial_state))
         (inchesToPx (zoom (ruler_props initial_state)) 1.38) = 1.38
   \<and> inchesToPx (zoom (ruler_props initial_state)) 1.38 = 132.48"
  using px_inches_roundtrip [of "1.38" "ruler_props initial_state"]
  by (simp add: ruler_props_def initial_state_def letter_def)

section \<open>Ruler clicks\<close>







text \<open>
  C2.  The band test of \<^verbatim>\<open>handleRulerClick\<close> is made on the offset before it is
  snapped.  With the initial page a click 105 pixels from the ruler's left edge is 0.09375
  inches into the content band and stores the tab stop 0; with a left margin of 1.1 inches
  (content band of 6.4 inches) a click at 719 pixels stores the tab stop 6.5.
\<close>

theorem click_stores_stop_outside_band:
  "te_tabStops (on_click initial_state idle (Some 0) 105) = [0, 0.5, 1, 1.5, 2, 2.5, 3, 3.5, 4]
   \<and> te_tabStops (on_click wide_left idle (Some 0) 719) = [0.5, 1, 1.5, 2, 2.5, 3, 3.5, 4, 6.5]
   \<and> width (pageSize wide_left) - margin_left (margins wide_left) - margin_right (margins wide_left) = 6.4"
  by (simp add: on_click_def handleRulerClick_def ruler_props_def initial_state_def wide_left_def
      letter_def idle_def pxToInches_def Math_round_def handleTabStopAdd_def Let_def)

section \<open>Duplicate tab stops\<close>

text \<open>
  The claim C3 as stated fails: from the initial list, which has no duplicates, a click
  on an existing stop (144 pixels, 0.5 inches into the band) stores 0.5 a second time, and
  dragging the first stop onto the second (192 pixels) leaves 1 twice.
\<close>

theorem tab_stops_duplicated:
  "distinct (te_tabStops initial_state)
   \<and> te_tabStops (on_click initial_state idle (Some 0) 144) = [0.5, 0.5, 1, 1.5, 2, 2.5, 3, 3.5, 4]
   \<and> \<not> distinct (te_tabStops (on_click initial_state idle (Some 0) 144))
   \<and> te_tabStops (on_mouse_move initial_state (dragging_tab 0) (Some 0) 192) = [1, 1, 1.5, 2, 2.5, 3, 3.5, 4]
   \<and> \<not> distinct (te_tabStops (on_mouse_move initial_state (dragging_tab 0) (Some 0) 192))"
  by (simp add: on_click_def on_mouse_move_def handleRulerClick_def handleMouseMove_def
      ruler_props_def initial_state_def dragging_tab_def handleTabDragStart_def index_opt_def
      letter_def idle_def pxToInches_def Math_round_def Math_abs_def handleTabStopAdd_def
      handleTabStopRemove_def Let_def)

lemma distinct_handleTabStopAdd:
  "distinct (handleTabStopAdd v prev) \<longleftrightarrow> distinct prev \<and> v \<notin> set prev"
  by (auto simp: handleTabStopAdd_def)

lemma distinct_handleTabStopRemove:
  "distinct prev \<Longrightarrow> distinct (handleTabStopRemove old prev)"
  by (simp add: handleTabStopRemove_def split: option.splits)

text \<open>
  C3, amended.  From a list without duplicates, a tab-stop add triggered by a ruler click
  gives a list without duplicates exactly when the snapped value was not in the list
  already; a drag-move of a tab stop, which removes the old value and then inserts the
  snapped new one, gives a list without duplicates exactly when the new value is not
  among the stops left after the removal.
\<close>

theorem tab_stops_distinct_unless_present:
  assumes "distinct (te_tabStops s)" and "0 < te_zoom s"
  shows "(\<forall>v. handleRulerClick (ruler_props s) st rect clientX = [OnTabStopAdd v]
            \<longrightarrow> te_tabStops (on_click s st rect clientX) = handleTabStopAdd v (te_tabStops s)
              \<and> (distinct (te_tabStops (on_click s st rect clientX)) \<longleftrightarrow> v \<notin> set (te_tabStops s)))
       \<and> (\<forall>old v. handleMouseMove (ruler_props s) st' rect' mouseX = [OnTabStopRemove old, OnTabStopAdd v]
            \<longrightarrow> te_tabStops (on_mouse_move s st' rect' mouseX)
                  = handleTabStopAdd v (handleTabStopRemove old (te_tabStops s))
              \<and> (distinct (te_tabStops (on_mouse_move s st' rect' mouseX))
                   \<longleftrightarrow> v \<notin> set (handleTabStopRemove old (te_tabStops s))))"
  using assms(1)
  by (simp add: on_click_def on_mouse_move_def distinct_handleTabStopAdd distinct_handleTabStopRemove)

theorem tab_stops_distinct_unless_present_witness:
  "distinct (te_tabStops initial_state) \<and> 0 < te_zoom initial_state
   \<and> handleRulerClick (ruler_props initial_state) idle (Some 0) 168 = [OnTabStopAdd 0.75]
   \<and> te_tabStops (on_click initial_state idle (Some 0) 168) = [0.5, 0.75, 1, 1.5, 2, 2.5, 3, 3.5, 4]
   \<and> distinct (te_tabStops (on_click initial_state idle (Some 0) 168))
   \<and> handleMouseMove (ruler_props initial_state) (dragging_tab 0) (Some 0) 168
       = [OnTabStopRemove (Some 0.5), OnTabStopAdd 0.75]
   \<and> te_tabStops (on_mouse_move initial_state (dragging_tab 0) (Some 0) 168) = [0.75, 1, 1.5, 2, 2.5, 3, 3.5, 4]
   \<and> distinct (te_tabStops (on_mouse_move initial_state (dragging_tab 0) (Some 0) 168))"
proof -
  have c: "handleRulerClick (ruler_props initial_state) idle (Some 0) 168 = [OnTabStopAdd 0.75]"
    by (simp add: handleRulerClick_def ruler_props_def initial_state_def letter_def idle_def
        pxToInches_def Math_round_def Let_def)
  have m: "handleMouseMove (ruler_props initial_state) (dragging_tab 0) (Some 0) 168
       = [OnTabStopRemove (Some 0.5), OnTabStopAdd 0.75]"
    by (simp add: handleMouseMove_def ruler_props_def initial_state_def letter_def idle_def
        dragging_tab_def handleTabDragStart_def index_opt_def pxToInches_def Math_round_def Let_def)
  have d: "distinct (te_tabStops initial_state)" and z: "0 < te_zoom initial_state"
    by (simp_all add: initial_state_def)
  note t = tab_stops_distinct_unless_present
    [OF d z, of idle "Some 0" 168 "dragging_tab 0" "Some 0" 168]
  from t c have 1: "te_tabStops (on_click initial_state idle (Some 0) 168)
        = handleTabStopAdd 0.75 (te_tabStops initial_state)
      \<and> (distinct (te_tabStops (on_click initial_state idle (Some 0) 168))
           \<longleftrightarrow> 0.75 \<notin> set (te_tabStops initial_state))"
    by blast
  from t m have 2: "te_tabStops (on_mouse_move initial_state (dragging_tab 0) (Some 0) 168)
        = handleTabStopAdd 0.75 (handleTabStopRemove (Some 0.5) (te_tabStops initial_state))
      \<and> (distinct (te_tabStops (on_mouse_move initial_state (dragging_tab 0) (Some 0) 168))
           \<longleftrightarrow> 0.75 \<notin> set (handleTabStopRemove (Some 0.5) (te_tabStops initial_state)))"
    by blast
  have 3: "handleTabStopAdd 0.75 (te_tabStops initial_state) = [0.5, 0.75, 1, 1.5, 2, 2.5, 3, 3.5, 4]"
    and 4: "handleTabStopRemove (Some 0.5) (te_tabStops initial_state) = [1, 1.5, 2, 2.5, 3, 3.5, 4]"
    by (simp_all add: initial_state_def handleTabStopAdd_def handleTabStopRemove_def Math_abs_def)
  have 5: "handleTabStopAdd 0.75 [1, 1.5, 2, 2.5, 3, 3.5, 4] = [0.75, 1, 1.5, 2, 2.5, 3, 3.5, 4]"
    by (simp add: handleTabStopAdd_def)
  have 6: "(0.75::real) \<notin> set (te_tabStops initial_state)"
    and 7: "(0.75::real) \<notin> set [1, 1.5, 2, 2.5, 3, 3.5, 4]"
    by (simp_all add: initial_state_def)
  show ?thesis
    using 1 2 c m d z 6 7 unfolding 3 4 5 by simp
qed

section \<open>Margin drags\<close>










section \<open>Removing a tab stop\<close>

lemma handleTabStopRemove_filter:
  "handleTabStopRemove (Some p) ts = filter (\<lambda>t. \<not> \<bar>t - p\<bar> \<le> 0.05) ts"
  by (simp add: handleTabStopRemove_def Math_abs_abs not_le)

lemma remove_near_index:
  assumes apart: "sorted_wrt (\<lambda>a b. 0.25 \<le> \<bar>a - b\<bar>) ts"
    and i: "i < length ts" and near: "\<bar>p - ts ! i\<bar> \<le> 0.05"
  shows "handleTabStopRemove (Some p) ts = take i ts @ drop (Suc i) ts"
  unfolding handleTabStopRemove_filter
proof (rule filter_all_but_one [OF i])
  show "\<not> \<not> \<bar>ts ! i - p\<bar> \<le> 0.05" using near by linarith
next
  fix j assume j: "j < length ts" "j \<noteq> i"
  have "0.25 \<le> \<bar>ts ! i - ts ! j\<bar>"
  proof (cases "i < j")
    case True
    then show ?thesis using apart j by (simp add: sorted_wrt_iff_nth_less)
  next
    case False
    then have "j < i" using j by simp
    then have "0.25 \<le> \<bar>ts ! j - ts ! i\<bar>" using apart i by (simp add: sorted_wrt_iff_nth_less)
    then show ?thesis by linarith
  qed
  then show "\<not> \<bar>ts ! j - p\<bar> \<le> 0.05" using near by (simp add: abs_if split: if_splits)
qed

lemma on_double_click_eq:
  "on_double_click s i = s\<lparr>te_tabStops := handleTabStopRemove (index_opt (te_tabStops s) i) (te_tabStops s)\<rparr>"
  by (simp add: on_double_click_def handleTabDoubleClick_def ruler_props_def)

lemma add_then_remove:
  assumes "\<forall>t\<in>set ts. 0.25 \<le> \<bar>t - v\<bar>"
  shows "handleTabStopRemove (Some v) (handleTabStopAdd v ts) = sort ts"
proof -
  have "filter (\<lambda>t. \<not> \<bar>t - v\<bar> \<le> 0.05) ts = ts"
    using assms by (intro filter_True) fastforce
  then show ?thesis
    by (simp add: handleTabStopRemove_filter handleTabStopAdd_def filter_sort)
qed

text \<open>
  C8.  The removal handler deletes precisely the stops within 0.05 inches of the position
  it is given.  When the stops are pairwise at least 0.25 inches apart, a double click on
  the handle of a stop removes that stop and leaves every other stop as it was, and so
  does a removal at any position within 0.05 inches of the stop.  Adding a stop at 2.0
  inches to a list whose stops are all at least 0.25 inches away from it and then double
  clicking the new stop gives the list back (in the sorted order the add handler keeps).
\<close>

theorem double_click_removes_exactly_that_stop:
  assumes "sorted_wrt (\<lambda>a b. 0.25 \<le> \<bar>a - b\<bar>) (te_tabStops s)"
    and "index < length (te_tabStops s)"
  shows "on_double_click s index
           = s\<lparr>te_tabStops := take index (te_tabStops s) @ drop (Suc index) (te_tabStops s)\<rparr>
       \<and> (\<forall>p. \<bar>p - te_tabStops s ! index\<bar> \<le> 0.05 \<longrightarrow>
              handleTabStopRemove (Some p) (te_tabStops s)
                = take index (te_tabStops s) @ drop (Suc index) (te_tabStops s))
       \<and> (\<forall>p ts. handleTabStopRemove (Some p) ts = filter (\<lambda>t. \<not> \<bar>t - p\<bar> \<le> 0.05) ts)
       \<and> ((\<forall>t\<in>set (te_tabStops s). 0.25 \<le> \<bar>t - 2\<bar>) \<longrightarrow>
            (\<forall>i < length (te_tabStops (call_parent s (OnTabStopAdd 2))).
               te_tabStops (call_parent s (OnTabStopAdd 2)) ! i = 2 \<longrightarrow>
               on_double_click (call_parent s (OnTabStopAdd 2)) i = s\<lparr>te_tabStops := sort (te_tabStops s)\<rparr>))"
proof (intro conjI allI impI)
  show "on_double_click s index
           = s\<lparr>te_tabStops := take index (te_tabStops s) @ drop (Suc index) (te_tabStops s)\<rparr>"
    using remove_near_index [OF assms, of "te_tabStops s ! index"] assms(2)
    by (simp add: on_double_click_eq index_opt_def)
next
  fix p assume "\<bar>p - te_tabStops s ! index\<bar> \<le> 0.05"
  then show "handleTabStopRemove (Some p) (te_tabStops s)
                = take index (te_tabStops s) @ drop (Suc index) (te_tabStops s)"
    by (rule remove_near_index [OF assms])
next
  fix p ts show "handleTabStopRemove (Some p) ts = filter (\<lambda>t. \<not> \<bar>t - p\<bar> \<le> 0.05) ts"
    by (rule handleTabStopRemove_filter)
next
  fix i
  assume far: "\<forall>t\<in>set (te_tabStops s). 0.25 \<le> \<bar>t - 2\<bar>"
    and i: "i < length (te_tabStops (call_parent s (OnTabStopAdd 2)))"
    and at: "te_tabStops (call_parent s (OnTabStopAdd 2)) ! i = 2"
  show "on_double_click (call_parent s (OnTabStopAdd 2)) i = s\<lparr>te_tabStops := sort (te_tabStops s)\<rparr>"
    using i at add_then_remove [OF far]
    by (simp add: on_double_click_eq index_opt_def)
qed

theorem double_click_removes_exactly_that_stop_witness:
  "sorted_wrt (\<lambda>a b. 0.25 \<le> \<bar>a - b\<bar>) (te_tabStops three_stops)
   \<and> 1 < length (te_tabStops three_stops)
   \<and> te_tabStops (on_double_click three_stops 1) = [0.5, 3]
   \<and> handleTabStopRemove (Some 1.04) (te_tabStops three_stops) = [0.5, 3]
   \<and> list_all (\<lambda>t. 0.25 \<le> \<bar>t - 2\<bar>) (te_tabStops three_stops)
   \<and> te_tabStops (call_parent three_stops (OnTabStopAdd 2)) = [0.5, 1, 2, 3]
   \<and> te_tabStops (on_double_click (call_parent three_stops (OnTabStopAdd 2)) 2) = [0.5, 1, 3]"
proof -
  have a: "sorted_wrt (\<lambda>a b. 0.25 \<le> \<bar>a - b\<bar>) (te_tabStops three_stops)"
    and b: "1 < length (te_tabStops three_stops)"
    and c: "\<forall>t\<in>set (te_tabStops three_stops). 0.25 \<le> \<bar>t - 2\<bar>"
    and d: "te_tabStops (call_parent three_stops (OnTabStopAdd 2)) = [0.5, 1, 2, 3]"
    by (simp_all add: three_stops_def initial_state_def handleTabStopAdd_def)
  note t = double_click_removes_exactly_that_stop [OF a b]
  have 1: "te_tabStops (on_double_click three_stops 1) = [0.5, 3]"
    using t by (simp add: three_stops_def)
  have 2: "handleTabStopRemove (Some 1.04) (te_tabStops three_stops) = [0.5, 3]"
  proof -
    have "\<bar>1.04 - te_tabStops three_stops ! 1\<bar> \<le> (0.05::real)" by (simp add: three_stops_def)
    with t show ?thesis by (simp add: three_stops_def)
  qed
  have 3: "te_tabStops (on_double_click (call_parent three_stops (OnTabStopAdd 2)) 2) = [0.5, 1, 3]"
  proof -
    have "2 < length (te_tabStops (call_parent three_stops (OnTabStopAdd 2)))"
      "te_tabStops (call_parent three_stops (OnTabStopAdd 2)) ! 2 = 2"
      unfolding d by simp_all
    with t c have "on_double_click (call_parent three_stops (OnTabStopAdd 2)) 2
        = three_stops\<lparr>te_tabStops := sort (te_tabStops three_stops)\<rparr>"
      by blast
    then show ?thesis by (simp add: three_stops_def)
  qed
  from c have c': "list_all (\<lambda>t. 0.25 \<le> \<bar>t - 2\<bar>) (te_tabStops three_stops)"
    by (simp add: list_all_iff)
  from a b c' d 1 2 3 show ?thesis by blast
qed

section \<open>Margin fields of the page set-up dialog\<close>

text \<open>
  C9.  When the text of a margin field does not parse as a number (\<open>parseFloat\<close> gives
  NaN), the handler of the field stores 0 in its margin and leaves the other three as they
  are; no input makes a handler store NaN.
\<close>

theorem margin_input_falls_back_to_zero:
  assumes "parseFloat v = NaN"
  shows "onChange_top v lm = lm\<lparr>lm_top := Num 0\<rparr>
       \<and> onChange_bottom v lm = lm\<lparr>lm_bottom := Num 0\<rparr>
       \<and> onChange_left v lm = lm\<lparr>lm_left := Num 0\<rparr>
       \<and> onChange_right v lm = lm\<lparr>lm_right := Num 0\<rparr>
       \<and> margin_value v = Num 0
       \<and> (\<forall>w. margin_value w \<noteq> NaN)"
  using assms
  by (simp add: onChange_top_def onChange_bottom_def onChange_left_def onChange_right_def
      margin_value_def logical_or_def)

theorem margin_input_falls_back_to_zero_witness:
  "parseFloat '''' = NaN \<and> parseFloat ''abc'' = NaN
   \<and> onChange_top '''' inch_margins = \<lparr>lm_top = Num 0, lm_bottom = Num 1, lm_left = Num 1, lm_right = Num 1\<rparr>
   \<and> onChange_left ''abc'' inch_margins = \<lparr>lm_top = Num 1, lm_bottom = Num 1, lm_left = Num 0, lm_right = Num 1\<rparr>
   \<and> onChange_left ''1.5'' inch_margins = \<lparr>lm_top = Num 1, lm_bottom = Num 1, lm_left = Num 1.5, lm_right = Num 1\<rparr>"
proof -
  have a: "parseFloat '''' = NaN" and b: "parseFloat ''abc'' = NaN" and c: "parseFloat ''1.5'' = Num 1.5"
    by (simp_all add: parseFloat_def split_sign_def isWhiteSpace_def isDigit_def digits_val_def
        parse_exponent_def scale10_def)
  show ?thesis
    using margin_input_falls_back_to_zero [OF a, of inch_margins]
      margin_input_falls_back_to_zero [OF b, of inch_margins] a b c
    by (simp add: inch_margins_def onChange_left_def margin_value_def logical_or_def)
qed

section \<open>The match scanner\<close>





lemma scan_matches_nodes:
  "scan_matches d pat cs = concat (map (node_matches cs pat) (text_nodes d 0))"
  by (simp add: scan_matches_def)


lemma exec_loop_member:
  "i \<in> set (exec_loop cs pat str lastIndex) \<Longrightarrow>
     lastIndex \<le> i \<and> i + length pat \<le> length str \<and> matchAt cs pat str i \<and> pat \<noteq> []"
proof (induction cs pat str lastIndex rule: exec_loop.induct)
  case (1 cs pat str lastIndex)
  show ?case
  proof (cases "pat = []")
    case True
    with "1.prems" show ?thesis by (simp add: exec_loop_empty_pattern)
  next
    case False
    show ?thesis
    proof (cases "regex_exec cs pat str lastIndex")
      case None
      with "1.prems" show ?thesis by (simp add: exec_loop_None)
    next
      case (Some j)
      then have j: "lastIndex \<le> j" "j + length pat \<le> length str" "matchAt cs pat str j"
        using regex_exec_Some by blast+
      from "1.prems" have "i = j \<or> i \<in> set (exec_loop cs pat str (j + length pat))"
        by (simp add: exec_loop_Some [OF False Some])
      then show ?thesis
      proof
        assume "i = j"
        with j False show ?thesis by simp
      next
        assume "i \<in> set (exec_loop cs pat str (j + length pat))"
        from "1.IH" [OF False Some this] j(1) False show ?thesis by simp
      qed
    qed
  qed
qed


lemma length_run:
  "length (takeWhile P ts) + length (dropWhile P ts) = length ts"
  by (metis length_append takeWhile_dropWhile_id)



lemma text_nodes_run:
  "(p, str) \<in> set (text_nodes ts pos) \<Longrightarrow>
     \<exists>q m. p = pos + q \<and> q + length str \<le> length ts
       \<and> (\<forall>k < length str. ts ! (q + k) = Txt (str ! k) m)"
proof (induction ts pos rule: text_nodes.induct)
  case (1 pos)
  then show ?case by simp
next
  case (2 ts pos)
  then have "(p, str) \<in> set (text_nodes ts (Suc pos))" by simp
  from "2.IH" [OF this] obtain q m where
    q: "p = Suc pos + q" "q + length str \<le> length ts"
      "\<forall>k < length str. ts ! (q + k) = Txt (str ! k) m"
    by blast
  then have "p = pos + Suc q \<and> Suc q + length str \<le> length (Struct # ts)
       \<and> (\<forall>k < length str. (Struct # ts) ! (Suc q + k) = Txt (str ! k) m)"
    by simp
  then show ?case by blast
next
  case (3 c m ts pos)
  let ?run = "takeWhile (same_marks m) ts"
  let ?rest = "dropWhile (same_marks m) ts"
  have split: "?run @ ?rest = ts" by simp
  have len: "length ?run + length ?rest = length ts" by (rule length_run)
  from "3.prems" consider (here) "p = pos" "str = c # map token_char ?run"
    | (later) "(p, str) \<in> set (text_nodes ?rest (Suc pos + length ?run))"
    by auto
  then show ?case
  proof cases
    case here
    have "\<forall>k < length str. (Txt c m # ts) ! (0 + k) = Txt (str ! k) m"
    proof (intro allI impI)
      fix k assume k: "k < length str"
      show "(Txt c m # ts) ! (0 + k) = Txt (str ! k) m"
      proof (cases k)
        case 0
        with here show ?thesis by simp
      next
        case (Suc j)
        with k here have j: "j < length ?run" by simp
        then have "?run ! j \<in> set ?run" by simp
        then have sm: "same_marks m (?run ! j)" by (meson set_takeWhileD)
        have "ts ! j = ?run ! j" using j by (simp add: takeWhile_nth)
        with sm have "ts ! j = Txt (token_char (?run ! j)) m"
          by (cases "?run ! j") auto
        with Suc here j show ?thesis by simp
      qed
    qed
    moreover have "0 + length str \<le> length (Txt c m # ts)"
      using here len by simp
    moreover have "p = pos + 0" using here by simp
    ultimately show ?thesis by blast
  next
    case later
    from "3.IH" [OF later] obtain q m' where
      q: "p = Suc pos + length ?run + q" "q + length str \<le> length ?rest"
        "\<forall>k < length str. ?rest ! (q + k) = Txt (str ! k) m'"
      by blast
    have "\<forall>k < length str. (Txt c m # ts) ! (Suc (length ?run + q) + k) = Txt (str ! k) m'"
    proof (intro allI impI)
      fix k assume k: "k < length str"
      have "ts ! (length ?run + (q + k)) = ?rest ! (q + k)"
        by (metis split nth_append_length_plus)
      with q(3) k show "(Txt c m # ts) ! (Suc (length ?run + q) + k) = Txt (str ! k) m'"
        by (simp add: add.assoc)
    qed
    moreover have "p = pos + Suc (length ?run + q)" using q(1) by simp
    moreover have "Suc (length ?run + q) + length str \<le> length (Txt c m # ts)"
      using q(2) len by simp
    ultimately show ?thesis by blast
  qed
qed

lemma text_nodes_cat: "text_nodes (paragraph_of ''cat cat cat'') 0 = [(1, ''cat cat cat'')]"
  by (simp add: paragraph_of_def)

lemma exec_loop_cat: "exec_loop False ''cat'' ''cat cat cat'' 0 = [0, 4, 8]"
  by (simp add: exec_loop.simps regex_exec_def matchAt_def canonicalize_def upt_rec)

lemma scan_matches_cat: "scan_matches (paragraph_of ''cat cat cat'') ''cat'' False = cat_matches"
  by (simp add: scan_matches_def node_matches_def text_nodes_cat exec_loop_cat cat_matches_def)

lemma length_paragraph_of: "length (paragraph_of s) = length s + 2"
  by (simp add: paragraph_of_def)

lemma findMatches_cat:
  "findMatches cat_state =
     cat_state\<lparr>results := cat_matches, currentIndex := 0,
               editor := Some \<lparr>doc = paragraph_of ''cat cat cat'', selection = (1, 4)\<rparr>\<rparr>"
  by (simp add: findMatches_def cat_state_def scan_matches_cat)
     (simp add: cat_matches_def setTextSelection_def length_paragraph_of)

lemma text_nodes_split: "text_nodes split_doc 0 = [(1, ''ca''), (3, ''t cat'')]"
  by (simp add: split_doc_def)

lemma exec_loop_split:
  "exec_loop True ''cat'' ''ca'' 0 = []" "exec_loop True ''cat'' ''t cat'' 0 = [2]"
  by (simp_all add: exec_loop.simps regex_exec_def matchAt_def upt_rec)

lemma scan_matches_split: "scan_matches split_doc ''cat'' True = [\<lparr>match_from = 5, match_to = 8\<rparr>]"
  by (simp add: scan_matches_def node_matches_def text_nodes_split exec_loop_split)

text \<open>
  C10.  Every match the scanner reports lies inside one text node: there is a text node
  of the document that contains the span, the pattern matches the text of that node at
  the span, and the tokens of the span are characters that all carry the same marks.  So
  an occurrence of the pattern that runs across the boundary of two text nodes is not
  reported, although the text of the document contains it.
\<close>

theorem matches_within_one_text_node:
  "\<forall>r \<in> set (scan_matches d pat cs).
      (\<exists>(pos, str) \<in> set (text_nodes d 0).
          pos \<le> match_from r \<and> match_to r \<le> pos + length str
          \<and> match_to r = match_from r + length pat
          \<and> matchAt cs pat str (match_from r - pos))
      \<and> (\<exists>m. \<forall>p. match_from r \<le> p \<and> p < match_to r \<longrightarrow> (\<exists>c. d ! p = Txt c m))
      \<and> match_to r \<le> length d"
proof
  fix r assume "r \<in> set (scan_matches d pat cs)"
  then obtain pos str where node: "(pos, str) \<in> set (text_nodes d 0)"
    and r: "r \<in> set (node_matches cs pat (pos, str))"
    by (auto simp: scan_matches_nodes)
  from r obtain i where i: "i \<in> set (exec_loop cs pat str 0)"
    and r_def: "r = \<lparr>match_from = pos + i, match_to = pos + i + length pat\<rparr>"
    by (auto simp: node_matches_def)
  from exec_loop_member [OF i] have fit: "i + length pat \<le> length str"
    and m: "matchAt cs pat str i" by simp_all
  from text_nodes_run [OF node] obtain mk where
    bound: "pos + length str \<le> length d"
    and run: "\<forall>k < length str. d ! (pos + k) = Txt (str ! k) mk"
    by auto
  have 1: "\<exists>(pos, str) \<in> set (text_nodes d 0).
          pos \<le> match_from r \<and> match_to r \<le> pos + length str
          \<and> match_to r = match_from r + length pat
          \<and> matchAt cs pat str (match_from r - pos)"
    using node fit m r_def by (intro bexI [of _ "(pos, str)"]) auto
  have 2: "\<exists>m. \<forall>p. match_from r \<le> p \<and> p < match_to r \<longrightarrow> (\<exists>c. d ! p = Txt c m)"
  proof (rule exI [of _ mk], intro allI impI)
    fix p assume p: "match_from r \<le> p \<and> p < match_to r"
    then have "p - pos < length str" "pos + (p - pos) = p" using fit r_def by auto
    with run show "\<exists>c. d ! p = Txt c mk" by metis
  qed
  have 3: "match_to r \<le> length d" using fit bound r_def by simp
  from 1 2 3 show "(\<exists>(pos, str) \<in> set (text_nodes d 0).
          pos \<le> match_from r \<and> match_to r \<le> pos + length str
          \<and> match_to r = match_from r + length pat
          \<and> matchAt cs pat str (match_from r - pos))
      \<and> (\<exists>m. \<forall>p. match_from r \<le> p \<and> p < match_to r \<longrightarrow> (\<exists>c. d ! p = Txt c m))
      \<and> match_to r \<le> length d"
    by blast
qed

theorem matches_within_one_text_node_witness:
  "textContent split_doc = ''cat cat''
   \<and> text_nodes split_doc 0 = [(1, ''ca''), (3, ''t cat'')]
   \<and> scan_matches split_doc ''cat'' True = [\<lparr>match_from = 5, match_to = 8\<rparr>]
   \<and> (\<exists>m. list_all (\<lambda>p. \<exists>c. split_doc ! p = Txt c m) [5, 6, 7])
   \<and> (8::nat) \<le> length split_doc"
proof -
  have r: "\<lparr>match_from = 5, match_to = 8\<rparr> \<in> set (scan_matches split_doc ''cat'' True)"
    by (simp add: scan_matches_split)
  from matches_within_one_text_node [of split_doc "''cat''" True] r
  have "(\<exists>m. \<forall>p. match_from \<lparr>match_from = 5, match_to = 8\<rparr> \<le> p
                 \<and> p < match_to \<lparr>match_from = 5, match_to = 8\<rparr> \<longrightarrow> (\<exists>c. split_doc ! p = Txt c m))
        \<and> match_to \<lparr>match_from = 5, match_to = 8\<rparr> \<le> length split_doc"
    by blast
  then obtain m where m: "\<And>p. 5 \<le> p \<and> p < 8 \<Longrightarrow> \<exists>c. split_doc ! p = Txt c m"
    and len: "(8::nat) \<le> length split_doc"
    by auto
  have "list_all (\<lambda>p. \<exists>c. split_doc ! p = Txt c m) [5, 6, 7]"
    using m [of 5] m [of 6] m [of 7] by simp
  then have "\<exists>m. list_all (\<lambda>p. \<exists>c. split_doc ! p = Txt c m) [5, 6, 7]" ..
  moreover note len
  moreover have "textContent split_doc = ''cat cat''"
    by (simp add: textContent_def split_doc_def)
  ultimately show ?thesis using text_nodes_split scan_matches_split by simp
qed

section \<open>Next and previous match\<close>

lemma js_rem_nonneg: "0 \<le> a \<Longrightarrow> 0 < b \<Longrightarrow> js_rem a b = a mod b"
  by (cases "a = 0") (simp_all add: js_rem_def)

lemma highlight_valid:
  "0 \<le> i \<Longrightarrow> i < int (length rs) \<Longrightarrow>
   highlightMatch (index_int rs i) ed = Inr (map_option (setTextSelection (rs ! nat i)) ed)"
  by (simp add: highlightMatch_def index_int_def split: option.splits)

text \<open>
  C7.  With \<open>n > 0\<close> matches and a valid current index \<open>i\<close>, \<open>goToNext\<close> sets the
  index to \<open>(i + 1) mod n\<close>, \<open>goToPrevious\<close> sets it to \<open>(i - 1 + n) mod n\<close>, and
  each selects the match at the new index.  With no match both leave the state as it is.
  With three matches and the index 2, \<open>goToNext\<close> sets the index to 0.
\<close>

theorem navigation_is_cyclic:
  assumes "results s \<noteq> []" and "0 \<le> currentIndex s" and "currentIndex s < int (length (results s))"
  shows "goToNext s =
           Inr (s\<lparr>currentIndex := (currentIndex s + 1) mod int (length (results s)),
                  editor := map_option
                    (setTextSelection (results s ! nat ((currentIndex s + 1) mod int (length (results s)))))
                    (editor s)\<rparr>)
       \<and> goToPrevious s =
           Inr (s\<lparr>currentIndex := (currentIndex s - 1 + int (length (results s))) mod int (length (results s)),
                  editor := map_option
                    (setTextSelection (results s !
                       nat ((currentIndex s - 1 + int (length (results s))) mod int (length (results s)))))
                    (editor s)\<rparr>)
       \<and> (\<forall>s'. results s' = [] \<longrightarrow> goToNext s' = Inr s' \<and> goToPrevious s' = Inr s')"
proof -
  let ?n = "int (length (results s))"
  have n: "0 < ?n" using assms(1) by simp
  have nx: "js_rem (currentIndex s + 1) ?n = (currentIndex s + 1) mod ?n"
    using assms(2) n by (intro js_rem_nonneg; linarith)
  have pv: "js_rem (currentIndex s - 1 + ?n) ?n = (currentIndex s - 1 + ?n) mod ?n"
    using assms(2) n by (intro js_rem_nonneg; linarith)
  have r1: "0 \<le> (currentIndex s + 1) mod ?n" "(currentIndex s + 1) mod ?n < ?n"
    using n by simp_all
  have r2: "0 \<le> (currentIndex s - 1 + ?n) mod ?n" "(currentIndex s - 1 + ?n) mod ?n < ?n"
    using n by simp_all
  have "goToNext s =
           Inr (s\<lparr>currentIndex := (currentIndex s + 1) mod ?n,
                  editor := map_option
                    (setTextSelection (results s ! nat ((currentIndex s + 1) mod ?n))) (editor s)\<rparr>)"
    unfolding goToNext_def Let_def nx highlight_valid [OF r1] using assms(1) by simp
  moreover have "goToPrevious s =
           Inr (s\<lparr>currentIndex := (currentIndex s - 1 + ?n) mod ?n,
                  editor := map_option
                    (setTextSelection (results s ! nat ((currentIndex s - 1 + ?n) mod ?n))) (editor s)\<rparr>)"
    unfolding goToPrevious_def Let_def pv highlight_valid [OF r2] using assms(1) by simp
  moreover have "\<forall>s'. results s' = [] \<longrightarrow> goToNext s' = Inr s' \<and> goToPrevious s' = Inr s'"
    by (simp add: goToNext_def goToPrevious_def)
  ultimately show ?thesis by blast
qed

theorem navigation_is_cyclic_witness:
  "results at_last_match = cat_matches \<and> length cat_matches = 3 \<and> currentIndex at_last_match = 2
   \<and> map_sum id currentIndex (goToNext at_last_match) = Inr 0
   \<and> map_sum id (map_option selection \<circ> editor) (goToNext at_last_match) = Inr (Some (1, 4))
   \<and> map_sum id currentIndex (goToPrevious at_last_match) = Inr 1
   \<and> map_sum id (map_option selection \<circ> editor) (goToPrevious at_last_match) = Inr (Some (5, 8))"
proof -
  have a: "results at_last_match \<noteq> []" and b: "0 \<le> currentIndex at_last_match"
    and c: "currentIndex at_last_match < int (length (results at_last_match))"
    by (simp_all add: at_last_match_def findMatches_cat cat_matches_def)
  have r: "results at_last_match = cat_matches" "currentIndex at_last_match = 2"
    "editor at_last_match = Some \<lparr>doc = paragraph_of ''cat cat cat'', selection = (1, 4)\<rparr>"
    by (simp_all add: at_last_match_def findMatches_cat)
  have l: "length cat_matches = 3" by (simp add: cat_matches_def)
  show ?thesis
    using navigation_is_cyclic [OF a b c] r l
    by (simp add: cat_matches_def setTextSelection_def length_paragraph_of)
qed

section \<open>Replace all\<close>










end
